theory Spec2Isabelle
  imports Main "HOL-Library.Product_Lexorder" "HOL-Library.Multiset"
begin

section \<open>Constants of the parser (\<^verbatim>\<open>conda_recipe_manager/parser/_types.py\<close>)\<close>


definition RECIPE_MANAGER_SUB_MARKER :: string where
  "RECIPE_MANAGER_SUB_MARKER = ''__RECIPE_MANAGER_SUBSTITUTION_MARKER__''"

definition TOP_LEVEL_KEY_SORT_ORDER :: "(string \<times> int) list" where
  "TOP_LEVEL_KEY_SORT_ORDER =
    [(''schema_version'', 0),
     (''context'', 10),
     (''package'', 20),
     (''recipe'', 30),
     (''source'', 40),
     (''files'', 50),
     (''build'', 60),
     (''requirements'', 70),
     (''outputs'', 80),
     (''test'', 90),
     (''tests'', 100),
     (''about'', 110),
     (''extra'', 120)]"

definition V1_SOURCE_SECTION_KEY_SORT_ORDER :: "(string \<times> int) list" where
  "V1_SOURCE_SECTION_KEY_SORT_ORDER =
    [(''url'', 0),
     (''sha256'', 10),
     (''md5'', 20),
     (''path'', 30),
     (''use_gitignore'', 40),
     (''git'', 50),
     (''branch'', 60),
     (''tag'', 70),
     (''rev'', 80),
     (''depth'', 90),
     (''lfs'', 100),
     (''target_directory'', 120),
     (''file_name'', 130),
     (''patches'', 140)]"

definition V1_BUILD_SECTION_KEY_SORT_ORDER :: "(string \<times> int) list" where
  "V1_BUILD_SECTION_KEY_SORT_ORDER =
    [(''number'', 0),
     (''string'', 10),
     (''skip'', 20),
     (''noarch'', 30),
     (''script'', 40),
     (''merge_build_and_host_envs'', 50),
     (''always_include_files'', 60),
     (''always_copy_files'', 70),
     (''variant'', 80),
     (''python'', 90),
     (''prefix_detection'', 100),
     (''dynamic_linking'', 110)]"

definition V1_TEST_SECTION_KEY_SORT_ORDER :: "(string \<times> int) list" where
  "V1_TEST_SECTION_KEY_SORT_ORDER =
    [(''script'', 0),
     (''requirements'', 10),
     (''files'', 20),
     (''python'', 30),
     (''downstream'', 40)]"

text \<open>The four canonicalization tables, in the order of the source file.\<close>

definition key_sort_order_tables :: "(string \<times> int) list list" where
  "key_sort_order_tables =
    [TOP_LEVEL_KEY_SORT_ORDER, V1_SOURCE_SECTION_KEY_SORT_ORDER,
     V1_BUILD_SECTION_KEY_SORT_ORDER, V1_TEST_SECTION_KEY_SORT_ORDER]"

definition SPDX_COMMON_MISSPELLINGS_TBL :: "(string \<times> string) list" where
  \<open>SPDX_COMMON_MISSPELLINGS_TBL =
    [(''APACHE LICENSE 1.0'', ''Apache-1.0''),
     (''APACHE LICENSE 1.1'', ''Apache-1.1''),
     (''APACHE LICENSE 2.0'', ''Apache-2.0''),
     (''BSD 1-CLAUSE'', ''BSD-1-Clause''),
     (''BSD 2-CLAUSE "SIMPLIFIED"'', ''BSD-2-Clause''),
     (''BSD_2_CLAUSE'', ''BSD-2-Clause''),
     (''BSD 3-CLAUSE'', ''BSD-3-Clause''),
     (''BSD_3_CLAUSE'', ''BSD-3-Clause''),
     (''GPL-2'', ''GPL-2.0''),
     (''GPL-3'', ''GPL-3.0'')]\<close>

section \<open>Regular expressions of class \<^verbatim>\<open>Regex\<close>\<close>

text \<open>
  The patterns of \<^verbatim>\<open>_types.py\<close> are compiled by Python's \<^verbatim>\<open>re\<close> module. The
  embedding gives the fragment of \<^verbatim>\<open>re\<close> those patterns are written in: literal
  characters, \<^verbatim>\<open>\s\<close>, \<^verbatim>\<open>.\<close> (no DOTALL flag: every character but the newline),
  bracket classes, the greedy quantifiers \<^verbatim>\<open>*\<close> and \<^verbatim>\<open>+\<close> (applied in the source to
  single-character atoms only), \<^verbatim>\<open>?\<close>, concatenation, alternation, \<^verbatim>\<open>^\<close> (no
  MULTILINE flag: the start of the text) and the one-character negative lookbehind
  \<^verbatim>\<open>(?<!c)\<close>. A Python \<^verbatim>\<open>str\<close> is a \<open>string\<close>; a character is its code point,
  below 256.
\<close>

datatype atom = Lit char | Space | Dot | Bracket "(char \<times> char) list"

text \<open>
  \<^verbatim>\<open>\s\<close> on a \<^verbatim>\<open>str\<close> pattern is Unicode whitespace; below 256 these are the code
  points 9 to 13, 28 to 31, 32, 133 and 160.
\<close>

definition is_space :: "char \<Rightarrow> bool" where
  "is_space c = ((of_char c :: nat) \<in> {9, 10, 11, 12, 13, 28, 29, 30, 31, 32, 133, 160})"

definition in_range :: "char \<Rightarrow> char \<times> char \<Rightarrow> bool" where
  "in_range c r = ((of_char (fst r) :: nat) \<le> of_char c \<and> (of_char c :: nat) \<le> of_char (snd r))"

fun accepts :: "atom \<Rightarrow> char \<Rightarrow> bool" where
  "accepts (Lit a) c = (c = a)"
| "accepts Space c = is_space c"
| "accepts Dot c = (c \<noteq> CHR 0x0A)"
| "accepts (Bracket rs) c = list_ex (in_range c) rs"

datatype regex = Eps | Atom atom | Star atom | Plus atom | Seq regex regex
  | Alt regex regex | Opt regex | Bol | NotBehind char

text \<open>
  A position in the text is a cursor: the characters before it, nearest first, and the
  characters from it on.
\<close>

type_synonym cursor = "string \<times> string"

text \<open>
  \<open>repeat a z\<close> lists the cursors a greedy \<^verbatim>\<open>a*\<close> can stop at, the longest run first:
  the order in which the backtracking matcher tries them.
\<close>

fun repeat :: "atom \<Rightarrow> cursor \<Rightarrow> cursor list" where
  "repeat a (b, []) = [(b, [])]"
| "repeat a (b, x # xs) =
     (if accepts a x then repeat a (x # b, xs) else []) @ [(b, x # xs)]"

text \<open>
  \<open>reach r z\<close> lists the cursors at which a match of \<open>r\<close> started at \<open>z\<close> can end, in
  the order Python's backtracking search finds them: a quantifier tries its longest run
  first, an alternation its left branch first, and a concatenation tries, for every end of
  its first part in order, every end of its second part. The match \<^verbatim>\<open>re\<close> reports is the
  first of the list.
\<close>

fun reach :: "regex \<Rightarrow> cursor \<Rightarrow> cursor list" where
  "reach Eps z = [z]"
| "reach (Atom a) (b, s) =
     (case s of [] \<Rightarrow> [] | x # xs \<Rightarrow> if accepts a x then [(x # b, xs)] else [])"
| "reach (Star a) z = repeat a z"
| "reach (Plus a) (b, s) =
     (case s of [] \<Rightarrow> [] | x # xs \<Rightarrow> if accepts a x then repeat a (x # b, xs) else [])"
| "reach (Seq r1 r2) z = concat (map (reach r2) (reach r1 z))"
| "reach (Alt r1 r2) z = reach r1 z @ reach r2 z"
| "reach (Opt r) z = reach r z @ [z]"
| "reach Bol (b, s) = (if b = [] then [(b, s)] else [])"
| "reach (NotBehind c) (b, s) =
     (case b of [] \<Rightarrow> [(b, s)] | p # _ \<Rightarrow> if p = c then [] else [(b, s)])"

fun lits :: "string \<Rightarrow> regex" where
  "lits [] = Eps"
| "lits (c # cs) = Seq (Atom (Lit c)) (lits cs)"

fun seqs :: "regex list \<Rightarrow> regex" where
  "seqs [] = Eps"
| "seqs (r # rs) = Seq r (seqs rs)"

definition match_at :: "regex \<Rightarrow> cursor \<Rightarrow> cursor option" where
  "match_at r z = (case reach r z of [] \<Rightarrow> None | z' # _ \<Rightarrow> Some z')"

text \<open>
  The scan shared by \<^verbatim>\<open>Pattern.sub\<close>, \<^verbatim>\<open>findall\<close> and \<^verbatim>\<open>finditer\<close>: the leftmost
  match, then the leftmost match after its end, and so on. \<open>pieces\<close> cuts the text into
  its matched pieces (tagged \<open>True\<close>) and the characters between them (tagged \<open>False\<close>).
  An empty match is reported and the scan moves on by one character; no pattern used
  below matches the empty string.
\<close>

function pieces :: "regex \<Rightarrow> cursor \<Rightarrow> (bool \<times> string) list" where
  "pieces r (b, s) =
     (case match_at r (b, s) of
        None \<Rightarrow> (case s of [] \<Rightarrow> [] | x # xs \<Rightarrow> (False, [x]) # pieces r (x # b, xs))
      | Some (b', s') \<Rightarrow>
          if length s' < length s
          then (True, take (length s - length s') s) # pieces r (b', s')
          else (True, []) # (case s of [] \<Rightarrow> [] | x # xs \<Rightarrow> (False, [x]) # pieces r (x # b, xs)))"
  by pat_completeness auto
termination
  by (relation "measure (\<lambda>(r, b, s). length s)") auto

declare pieces.simps [simp del]

text \<open>\<^verbatim>\<open>Pattern.sub(repl, text)\<close> with a callable \<open>repl\<close> of the matched text.\<close>

definition sub :: "regex \<Rightarrow> (string \<Rightarrow> string) \<Rightarrow> string \<Rightarrow> string" where
  "sub r repl text = concat (map (\<lambda>(m, t). if m then repl t else t) (pieces r ([], text)))"

text \<open>The matched texts, in order (\<^verbatim>\<open>finditer\<close>, group 0).\<close>

definition findall :: "regex \<Rightarrow> string \<Rightarrow> string list" where
  "findall r text = map snd (filter fst (pieces r ([], text)))"

definition unmatched :: "string \<Rightarrow> (bool \<times> string) list" where
  "unmatched f = map (\<lambda>c. (False, [c])) f"

text \<open>Cursors that stop before a tail \<open>f\<close> of the text, and a cursor with \<open>f\<close> put behind it.\<close>

definition keeps :: "string \<Rightarrow> cursor \<Rightarrow> bool" where
  "keeps f z = (length f \<le> length (snd z))"

definition behind :: "string \<Rightarrow> cursor \<Rightarrow> cursor" where
  "behind f z = (fst z, snd z @ f)"

subsection \<open>The patterns\<close>

text \<open>\<^verbatim>\<open>_JINJA_VAR_FUNCTION_PATTERN = r"[a-zA-Z_][a-zA-Z0-9_\|\'\"\(\)\, =\.\-]*"\<close>\<close>

definition JINJA_VAR_FUNCTION_PATTERN :: regex where
  \<open>JINJA_VAR_FUNCTION_PATTERN =
    Seq (Atom (Bracket [(CHR ''a'', CHR ''z''), (CHR ''A'', CHR ''Z''), (CHR ''_'', CHR ''_'')]))
        (Star (Bracket [(CHR ''a'', CHR ''z''), (CHR ''A'', CHR ''Z''), (CHR ''0'', CHR ''9''),
                        (CHR ''_'', CHR ''_''), (CHR ''|'', CHR ''|''), (CHR 0x27, CHR 0x27),
                        (CHR ''"'', CHR ''"''), (CHR ''('', CHR ''(''), (CHR '')'', CHR '')''),
                        (CHR '','', CHR '',''), (CHR '' '', CHR '' ''), (CHR ''='', CHR ''=''),
                        (CHR ''.'', CHR ''.''), (CHR ''-'', CHR ''-'')]))\<close>


text \<open>\<^verbatim>\<open>JINJA_LINE = re.compile(r"({%.*%}|{#.*#})\n")\<close>\<close>

definition JINJA_LINE :: regex where
  "JINJA_LINE =
    Seq (Alt (seqs [lits ''{%'', Star Dot, lits ''%}''])
             (seqs [lits ''{#'', Star Dot, lits ''#}'']))
        (Atom (Lit CHR 0x0A))"

text \<open>
  \<^verbatim>\<open>JINJA_SET_LINE = re.compile(r"{%\s*set\s*" + _JINJA_VAR_FUNCTION_PATTERN + r"\s*=.*%}\s*\n")\<close>
\<close>

definition JINJA_SET_LINE :: regex where
  "JINJA_SET_LINE =
    Seq (seqs [lits ''{%'', Star Space, lits ''set'', Star Space, JINJA_VAR_FUNCTION_PATTERN,
               Star Space, lits ''='', Star Dot, lits ''%}'', Star Space])
        (Atom (Lit CHR 0x0A))"

text \<open>\<^verbatim>\<open>JINJA_REPLACE_V0_STARTING_MARKER = re.compile(r"(?<!\$)\{\{")\<close>\<close>

definition JINJA_REPLACE_V0_STARTING_MARKER :: regex where
  "JINJA_REPLACE_V0_STARTING_MARKER = Seq (NotBehind CHR ''$'') (lits ''{{'')"

text \<open>The two patterns for templating control lines.\<close>

definition control_line_patterns :: "regex list" where
  "control_line_patterns = [JINJA_LINE, JINJA_SET_LINE]"

section \<open>The lookup the pre-processor rewrites\<close>

text \<open>
  The pre-processor (\<^verbatim>\<open>pre_process_recipe_text\<close>, which the test calls; its body is not
  among the sources) rewrites the matches of \<^verbatim>\<open>PRE_PROCESS_ENVIRON\<close>, the pattern that
  ``finds \<^verbatim>\<open>environ[]\<close>'' and ``requires a whitespace character to prevent matches with
  \<^verbatim>\<open>os.environ[]\<close>''. The rewrite is \<open>sub PRE_PROCESS_ENVIRON repl\<close>; what a match is
  replaced by is a parameter.
\<close>





section \<open>The upgrade of the substitution marker\<close>

text \<open>
  The use the source gives \<^verbatim>\<open>JINJA_REPLACE_V0_STARTING_MARKER\<close> in the comment on it:
  replacing the older \<^verbatim>\<open>{{\<close> substitution by the newer \<^verbatim>\<open>${{\<close>, without doubling the
  newer syntax when several replacements are possible:
  \<^verbatim>\<open>JINJA_REPLACE_V0_STARTING_MARKER.sub("${{", text)\<close>. (The call is made by the
  converter, in a file that is not among the sources.)
\<close>

definition upgrade_jinja_marker :: "string \<Rightarrow> string" where
  "upgrade_jinja_marker text = sub JINJA_REPLACE_V0_STARTING_MARKER (\<lambda>_. ''${{'') text"

text \<open>Three opening braces in a row, somewhere in the text.\<close>

fun triple_brace :: "string \<Rightarrow> bool" where
  "triple_brace (a # b # c # r) =
     ((a = CHR ''{'' \<and> b = CHR ''{'' \<and> c = CHR ''{'') \<or> triple_brace (b # c # r))"
| "triple_brace _ = False"

text \<open>The character just before a cursor is a dollar sign.\<close>

definition after_dollar :: "string \<Rightarrow> bool" where
  "after_dollar b = (case b of [] \<Rightarrow> False | p # _ \<Rightarrow> p = CHR ''$'')"

text \<open>
  The scan of \<open>upgrade_jinja_marker\<close> written as one recursion over the text (\<open>d\<close>: the
  previous character is a dollar sign); \<open>upgrade_marker_scan\<close> below proves it equal to the
  rewrite with the pattern.
\<close>

fun marker_scan :: "bool \<Rightarrow> string \<Rightarrow> string" where
  "marker_scan d (x # y # rest) =
     (if x = CHR ''{'' \<and> y = CHR ''{'' \<and> \<not> d then ''${{'' @ marker_scan False rest
      else x # marker_scan (x = CHR ''$'') (y # rest))"
| "marker_scan d [x] = [x]"
| "marker_scan d [] = []"

section \<open>Canonical ordering and license normalization\<close>

text \<open>
  Modelled from the spec: the License Normalizer of section 4.5 (its code is in
  \<^verbatim>\<open>recipe_parser_convert.py\<close>, not among the sources; the table is the source's). An
  exact, case-sensitive lookup in the table; the input is returned when no key matches.
\<close>

definition normalize_license :: "string \<Rightarrow> string" where
  "normalize_license s = (case map_of SPDX_COMMON_MISSPELLINGS_TBL s of Some c \<Rightarrow> c | None \<Rightarrow> s)"

text \<open>
  Modelled from the spec: the re-ordering of section 4.4 (its code is not among the
  sources; the tables are the source's). The entries of a mapping, each a key with its
  subtree, are sorted by the rank of their key with a stable sort (Python's
  \<^verbatim>\<open>sorted\<close> is stable, and so is \<open>sort_key\<close>); a key the table does not rank sorts
  after every ranked key: its sort key is \<open>(True, 0)\<close>, a ranked key's is
  \<open>(False, rank)\<close>, in the lexicographic order of pairs.
\<close>

definition rank_key :: "(string \<times> int) list \<Rightarrow> string \<Rightarrow> bool \<times> int" where
  "rank_key tbl k = (case map_of tbl k of Some r \<Rightarrow> (False, r) | None \<Rightarrow> (True, 0))"

definition ranked :: "(string \<times> int) list \<Rightarrow> string \<times> 'v \<Rightarrow> bool" where
  "ranked tbl e = (map_of tbl (fst e) \<noteq> None)"

definition rank_of :: "(string \<times> int) list \<Rightarrow> string \<times> 'v \<Rightarrow> int" where
  "rank_of tbl e = (case map_of tbl (fst e) of Some r \<Rightarrow> r | None \<Rightarrow> 0)"

definition reorder :: "(string \<times> int) list \<Rightarrow> (string \<times> 'v) list \<Rightarrow> (string \<times> 'v) list" where
  "reorder tbl entries = sort_key (\<lambda>e. rank_key tbl (fst e)) entries"

section \<open>The document tree and the selector warnings of the conversion\<close>

text \<open>
  Modelled from the spec: the node of section 3 (the parse tree is in files that are not
  among the sources). A scalar has a value, a style, an optional selector and an optional
  trailing comment; a sequence has its items and a mapping its entries, in order, each
  with an optional selector.
\<close>

datatype chomping = Clip | Strip | Keep

datatype style = Plain | Literal chomping | Folded chomping





















section \<open>The block-scalar pattern\<close>

text \<open>\<^verbatim>\<open>MULTILINE = re.compile(r"^\s*.*:\s+(\||>)(\+|\-)?(\s*|\s+#.*)")\<close>\<close>

definition MULTILINE :: regex where
  "MULTILINE =
    seqs [Bol, Star Space, Star Dot, lits '':'', Plus Space,
          Alt (Atom (Lit CHR ''|'')) (Atom (Lit CHR ''>'')),
          Opt (Alt (Atom (Lit CHR ''+'')) (Atom (Lit CHR ''-''))),
          Alt (Star Space) (seqs [Plus Space, lits ''#'', Star Dot])]"

text \<open>
  \<^verbatim>\<open>Pattern.match\<close> (a match that starts at the start of the line) and
  \<^verbatim>\<open>Pattern.fullmatch\<close> (one that also ends at its end).
\<close>

definition matches_prefix :: "regex \<Rightarrow> string \<Rightarrow> bool" where
  "matches_prefix r line = (match_at r ([], line) \<noteq> None)"

definition matches_whole :: "regex \<Rightarrow> string \<Rightarrow> bool" where
  "matches_whole r line = list_ex (\<lambda>z. snd z = []) (reach r ([], line))"

section \<open>Ranks of the canonicalization tables\<close>

lemma top_level_ranks_increasing:
  "sorted_wrt (<) (map snd TOP_LEVEL_KEY_SORT_ORDER)"
  by (simp add: TOP_LEVEL_KEY_SORT_ORDER_def)

lemma v1_source_ranks_increasing:
  "sorted_wrt (<) (map snd V1_SOURCE_SECTION_KEY_SORT_ORDER)"
  by (simp add: V1_SOURCE_SECTION_KEY_SORT_ORDER_def)

lemma v1_build_ranks_increasing:
  "sorted_wrt (<) (map snd V1_BUILD_SECTION_KEY_SORT_ORDER)"
  by (simp add: V1_BUILD_SECTION_KEY_SORT_ORDER_def)

lemma v1_test_ranks_increasing:
  "sorted_wrt (<) (map snd V1_TEST_SECTION_KEY_SORT_ORDER)"
  by (simp add: V1_TEST_SECTION_KEY_SORT_ORDER_def)

lemma increasing_ranks_distinct:
  fixes rs :: "int list"
  assumes "sorted_wrt (<) rs"
  shows "distinct rs"
  using assms by (induction rs) auto

lemma distinct_ranks_separate_keys:
  assumes d: "distinct (map snd T)"
    and l1: "map_of T k1 = Some r1"
    and l2: "map_of T k2 = Some r2"
    and ne: "k1 \<noteq> k2"
  shows "r1 \<noteq> r2"
proof
  assume eq: "r1 = r2"
  from l1 have m1: "(k1, r1) \<in> set T" by (rule map_of_SomeD)
  from l2 have m2: "(k2, r2) \<in> set T" by (rule map_of_SomeD)
  from d have "inj_on snd (set T)" by (simp add: distinct_map)
  moreover from eq have "snd (k1, r1) = snd (k2, r2)" by simp
  ultimately have "(k1, r1) = (k2, r2)" using m1 m2 by (rule inj_onD)
  with ne show False by simp
qed

text \<open>
  Claim C9. In each of the four canonicalization tables (top level, V1 source section,
  V1 build section, V1 test section) the ranks are strictly increasing in declaration
  order, hence pairwise distinct: two different keys ranked by the same table never get
  the same rank, so their canonical relative order needs no tie-breaking.
\<close>

theorem key_sort_order_ranks_distinct:
  "(\<forall>T \<in> set key_sort_order_tables.
      sorted_wrt (<) (map snd T) \<and> distinct (map snd T))
   \<and> (\<forall>T \<in> set key_sort_order_tables. \<forall>k1 k2 r1 r2.
        map_of T k1 = Some r1 \<longrightarrow> map_of T k2 = Some r2 \<longrightarrow> k1 \<noteq> k2 \<longrightarrow>
        (r1 < r2 \<or> r2 < r1))"
proof -
  have inc: "\<forall>T \<in> set key_sort_order_tables. sorted_wrt (<) (map snd T)"
    using top_level_ranks_increasing v1_source_ranks_increasing
      v1_build_ranks_increasing v1_test_ranks_increasing
    by (simp add: key_sort_order_tables_def)
  then have dis: "\<forall>T \<in> set key_sort_order_tables. distinct (map snd T)"
    by (blast intro: increasing_ranks_distinct)
  have sep: "r1 < r2 \<or> r2 < r1"
    if "T \<in> set key_sort_order_tables" "map_of T k1 = Some r1"
      "map_of T k2 = Some r2" "k1 \<noteq> k2" for T k1 k2 r1 r2
  proof -
    from dis that(1) have "distinct (map snd T)" by blast
    from distinct_ranks_separate_keys [OF this that(2) that(3) that(4)]
    show ?thesis by auto
  qed
  from inc dis sep show ?thesis by blast
qed

theorem key_sort_order_ranks_distinct_witness:
  "TOP_LEVEL_KEY_SORT_ORDER \<in> set key_sort_order_tables
   \<and> map_of TOP_LEVEL_KEY_SORT_ORDER ''test'' = Some 90
   \<and> map_of TOP_LEVEL_KEY_SORT_ORDER ''tests'' = Some 100
   \<and> ''test'' \<noteq> ''tests''
   \<and> ((90::int) < 100 \<or> (100::int) < 90)
   \<and> sorted_wrt (<) (map snd TOP_LEVEL_KEY_SORT_ORDER)"
proof -
  have m: "TOP_LEVEL_KEY_SORT_ORDER \<in> set key_sort_order_tables"
    by (simp add: key_sort_order_tables_def)
  have l1: "map_of TOP_LEVEL_KEY_SORT_ORDER ''test'' = Some 90"
    by (simp add: TOP_LEVEL_KEY_SORT_ORDER_def)
  have l2: "map_of TOP_LEVEL_KEY_SORT_ORDER ''tests'' = Some 100"
    by (simp add: TOP_LEVEL_KEY_SORT_ORDER_def)
  have ne: "''test'' \<noteq> ''tests''" by simp
  from key_sort_order_ranks_distinct m l1 l2 ne
  have "(90::int) < 100 \<or> (100::int) < 90" by blast
  moreover from key_sort_order_ranks_distinct m
  have "sorted_wrt (<) (map snd TOP_LEVEL_KEY_SORT_ORDER)" by blast
  ultimately show ?thesis using m l1 l2 ne by blast
qed

section \<open>Properties of the matcher and of the scan\<close>

lemma repeat_iff:
  "z' \<in> set (repeat a (b, s)) \<longleftrightarrow>
     (\<exists>m s'. s = m @ s' \<and> z' = (rev m @ b, s') \<and> (\<forall>c \<in> set m. accepts a c))"
proof (induction s arbitrary: b)
  case Nil
  show ?case by auto
next
  case (Cons x xs)
  show ?case
  proof (cases "accepts a x")
    case True
    have "z' \<in> set (repeat a (b, x # xs)) \<longleftrightarrow>
            z' \<in> set (repeat a (x # b, xs)) \<or> z' = (b, x # xs)"
      using True by auto
    also have "\<dots> \<longleftrightarrow> (\<exists>m s'. xs = m @ s' \<and> z' = (rev m @ x # b, s') \<and> (\<forall>c \<in> set m. accepts a c))
                  \<or> z' = (b, x # xs)"
      by (simp only: Cons.IH)
    also have "\<dots> \<longleftrightarrow> (\<exists>m s'. x # xs = m @ s' \<and> z' = (rev m @ b, s') \<and> (\<forall>c \<in> set m. accepts a c))"
      (is "?L \<longleftrightarrow> ?R")
    proof
      assume ?L
      then show ?R
      proof
        assume "\<exists>m s'. xs = m @ s' \<and> z' = (rev m @ x # b, s') \<and> (\<forall>c \<in> set m. accepts a c)"
        then obtain m s' where "xs = m @ s'" "z' = (rev m @ x # b, s')" "\<forall>c \<in> set m. accepts a c"
          by blast
        with True have "x # xs = (x # m) @ s' \<and> z' = (rev (x # m) @ b, s') \<and> (\<forall>c \<in> set (x # m). accepts a c)"
          by simp
        then show ?R by blast
      next
        assume "z' = (b, x # xs)"
        then have "x # xs = [] @ (x # xs) \<and> z' = (rev [] @ b, x # xs) \<and> (\<forall>c \<in> set []. accepts a c)"
          by simp
        then show ?R by blast
      qed
    next
      assume ?R
      then obtain m s' where m: "x # xs = m @ s'" "z' = (rev m @ b, s')" "\<forall>c \<in> set m. accepts a c"
        by blast
      show ?L
      proof (cases m)
        case Nil
        with m show ?thesis by simp
      next
        case (Cons y m')
        with m have "xs = m' @ s' \<and> z' = (rev m' @ x # b, s') \<and> (\<forall>c \<in> set m'. accepts a c)"
          by simp
        then show ?thesis by blast
      qed
    qed
    finally show ?thesis .
  next
    case False
    have "z' \<in> set (repeat a (b, x # xs)) \<longleftrightarrow> z' = (b, x # xs)"
      using False by simp
    also have "\<dots> \<longleftrightarrow> (\<exists>m s'. x # xs = m @ s' \<and> z' = (rev m @ b, s') \<and> (\<forall>c \<in> set m. accepts a c))"
      (is "?L \<longleftrightarrow> ?R")
    proof
      assume ?L
      then have "x # xs = [] @ (x # xs) \<and> z' = (rev [] @ b, x # xs) \<and> (\<forall>c \<in> set []. accepts a c)"
        by simp
      then show ?R by blast
    next
      assume ?R
      then obtain m s' where m: "x # xs = m @ s'" "z' = (rev m @ b, s')" "\<forall>c \<in> set m. accepts a c"
        by blast
      show ?L
      proof (cases m)
        case Nil
        with m show ?thesis by simp
      next
        case (Cons y m')
        with m False show ?thesis by simp
      qed
    qed
    finally show ?thesis .
  qed
qed

lemma reach_Atom_iff:
  "z' \<in> set (reach (Atom a) (b, s)) \<longleftrightarrow> (\<exists>x xs. s = x # xs \<and> accepts a x \<and> z' = (x # b, xs))"
  by (cases s) auto

lemma reach_Plus_iff:
  "z' \<in> set (reach (Plus a) (b, s)) \<longleftrightarrow>
     (\<exists>m s'. s = m @ s' \<and> m \<noteq> [] \<and> z' = (rev m @ b, s') \<and> (\<forall>c \<in> set m. accepts a c))"
  (is "?L \<longleftrightarrow> ?R")
proof
  assume ?L
  then obtain x xs where s: "s = x # xs" and ax: "accepts a x"
    and z: "z' \<in> set (repeat a (x # b, xs))"
    by (cases s) (auto split: if_splits)
  from z obtain m s' where "xs = m @ s'" "z' = (rev m @ x # b, s')" "\<forall>c \<in> set m. accepts a c"
    unfolding repeat_iff by blast
  with s ax have "s = (x # m) @ s' \<and> x # m \<noteq> [] \<and> z' = (rev (x # m) @ b, s')
      \<and> (\<forall>c \<in> set (x # m). accepts a c)"
    by simp
  then show ?R by blast
next
  assume ?R
  then obtain m s' where m: "s = m @ s'" "m \<noteq> []" "z' = (rev m @ b, s')" "\<forall>c \<in> set m. accepts a c"
    by blast
  then obtain x m' where mm: "m = x # m'" by (cases m) auto
  from m mm have "z' \<in> set (repeat a (x # b, m' @ s'))"
    unfolding repeat_iff by auto
  with m mm show ?L by simp
qed

lemma reach_Seq_iff:
  "z' \<in> set (reach (Seq r1 r2) z) \<longleftrightarrow> (\<exists>z1 \<in> set (reach r1 z). z' \<in> set (reach r2 z1))"
  by auto


lemma reach_cursor:
  "z' \<in> set (reach r (b, s)) \<Longrightarrow> \<exists>m. s = m @ snd z' \<and> fst z' = rev m @ b"
proof (induction r arbitrary: b s z')
  case Eps
  then show ?case by simp
next
  case (Atom a)
  then show ?case unfolding reach_Atom_iff by auto
next
  case (Star a)
  then show ?case by (auto simp: repeat_iff)
next
  case (Plus a)
  then show ?case unfolding reach_Plus_iff by auto
next
  case (Seq r1 r2)
  from Seq.prems obtain z1 where z1: "z1 \<in> set (reach r1 (b, s))" and z': "z' \<in> set (reach r2 z1)"
    unfolding reach_Seq_iff by blast
  from Seq.IH(1) [OF z1] obtain m1 where m1: "s = m1 @ snd z1" "fst z1 = rev m1 @ b" by blast
  from z' have "z' \<in> set (reach r2 (fst z1, snd z1))" by simp
  from Seq.IH(2) [OF this] obtain m2 where m2: "snd z1 = m2 @ snd z'" "fst z' = rev m2 @ fst z1"
    by blast
  from m1 m2 have "s = (m1 @ m2) @ snd z' \<and> fst z' = rev (m1 @ m2) @ b" by simp
  then show ?case by blast
next
  case (Alt r1 r2)
  then show ?case by auto
next
  case (Opt r)
  then show ?case by auto
next
  case Bol
  then show ?case by (auto split: if_splits)
next
  case (NotBehind c)
  then show ?case by (auto split: list.splits if_splits)
qed

lemma keeps_append [simp]: "keeps f (b, s @ f)"
  by (simp add: keeps_def)

lemma keeps_Cons_append [simp]: "keeps f (b, x # s @ f)"
  by (simp add: keeps_def)

lemma keeps_self [simp]: "keeps f (b, f)"
  by (simp add: keeps_def)

lemma keeps_tail [simp]: "\<not> keeps (y # ys) (b, ys)"
  by (simp add: keeps_def)

lemma behind_pair [simp]: "behind f (b, s) = (b, s @ f)"
  by (simp add: behind_def)

lemma repeat_shorter:
  "z' \<in> set (repeat a (b, s)) \<Longrightarrow> length (snd z') \<le> length s"
  by (auto simp: repeat_iff)

lemma reach_shorter:
  "z' \<in> set (reach r (b, s)) \<Longrightarrow> length (snd z') \<le> length s"
  using reach_cursor [of z' r b s] by auto

lemma repeat_overshoot:
  "filter (keeps (y # ys)) (repeat a (y # b, ys)) = []"
proof -
  have "\<not> keeps (y # ys) z'" if "z' \<in> set (repeat a (y # b, ys))" for z'
    using repeat_shorter [OF that] by (simp add: keeps_def)
  then show ?thesis by (simp add: filter_empty_conv)
qed

lemma repeat_append:
  "filter (keeps f) (repeat a (b, s @ f)) = map (behind f) (repeat a (b, s))"
proof (induction s arbitrary: b)
  case Nil
  show ?case
  proof (cases f)
    case Nil
    then show ?thesis by simp
  next
    case (Cons y ys)
    with repeat_overshoot [of y ys a b] show ?thesis
      by simp
  qed
next
  case (Cons x xs)
  then show ?case by simp
qed

lemma concat_map_filter_nil:
  assumes "\<And>x. x \<in> set xs \<Longrightarrow> \<not> P x \<Longrightarrow> g x = []"
  shows "concat (map g xs) = concat (map g (filter P xs))"
  using assms by (induction xs) auto

lemma reach_append:
  "filter (keeps f) (reach r (b, s @ f)) = map (behind f) (reach r (b, s))"
proof (induction r arbitrary: b s)
  case Eps
  show ?case by simp
next
  case (Atom a)
  show ?case
  proof (cases s)
    case Nil
    then show ?thesis by (cases f) simp_all
  next
    case (Cons x xs)
    then show ?thesis by simp
  qed
next
  case (Star a)
  show ?case by (simp add: repeat_append)
next
  case (Plus a)
  show ?case
  proof (cases s)
    case Nil
    show ?thesis
    proof (cases f)
      case Nil
      with \<open>s = []\<close> show ?thesis by simp
    next
      case (Cons y ys)
      with repeat_overshoot [of y ys a b] \<open>s = []\<close> show ?thesis by simp
    qed
  next
    case (Cons x xs)
    then show ?thesis using repeat_append [of f a "x # b" xs] by simp
  qed
next
  case (Seq r1 r2)
  let ?g = "\<lambda>z1. filter (keeps f) (reach r2 z1)"
  have drop: "?g z1 = []" if "\<not> keeps f z1" for z1
  proof -
    have "\<not> keeps f z'" if "z' \<in> set (reach r2 z1)" for z'
      using reach_shorter [of z' r2 "fst z1" "snd z1"] that \<open>\<not> keeps f z1\<close>
      by (simp add: keeps_def)
    then show ?thesis by (auto simp: filter_empty_conv)
  qed
  have step: "?g (behind f z1) = map (behind f) (reach r2 z1)" for z1
    using Seq.IH(2) [of "fst z1" "snd z1"] by (simp add: behind_def)
  have "filter (keeps f) (reach (Seq r1 r2) (b, s @ f)) = concat (map ?g (reach r1 (b, s @ f)))"
    by (simp add: filter_concat comp_def)
  also have "\<dots> = concat (map ?g (filter (keeps f) (reach r1 (b, s @ f))))"
    by (rule concat_map_filter_nil) (simp add: drop)
  also have "\<dots> = concat (map ?g (map (behind f) (reach r1 (b, s))))"
    by (simp only: Seq.IH(1))
  also have "\<dots> = concat (map (\<lambda>z1. map (behind f) (reach r2 z1)) (reach r1 (b, s)))"
    by (simp add: comp_def step)
  also have "\<dots> = map (behind f) (reach (Seq r1 r2) (b, s))"
    by (simp add: map_concat comp_def)
  finally show ?case .
next
  case (Alt r1 r2)
  then show ?case by simp
next
  case (Opt r)
  then show ?case by simp
next
  case Bol
  show ?case by simp
next
  case (NotBehind c)
  show ?case by (cases b) simp_all
qed

lemma match_at_None: "match_at r z = None \<longleftrightarrow> reach r z = []"
  by (simp add: match_at_def split: list.splits)

lemma match_at_Some: "match_at r z = Some z' \<Longrightarrow> z' \<in> set (reach r z)"
  by (auto simp: match_at_def split: list.splits)

lemma pieces_None_Nil:
  "match_at r (b, []) = None \<Longrightarrow> pieces r (b, []) = []"
  by (subst pieces.simps) simp

lemma pieces_None_Cons:
  "match_at r (b, x # xs) = None \<Longrightarrow> pieces r (b, x # xs) = (False, [x]) # pieces r (x # b, xs)"
  by (subst pieces.simps) simp

lemma pieces_Some_step:
  "match_at r (b, s) = Some (b', s') \<Longrightarrow> length s' < length s \<Longrightarrow>
     pieces r (b, s) = (True, take (length s - length s') s) # pieces r (b', s')"
  by (subst pieces.simps) simp




lemma pieces_matched:
  assumes sh: "\<And>b s z'. z' \<in> set (reach r (b, s)) \<Longrightarrow> \<exists>m. s = m @ snd z' \<and> m \<noteq> [] \<and> Q b m"
  shows "(True, t) \<in> set (pieces r (b, s)) \<Longrightarrow> \<exists>u v. s = u @ t @ v \<and> Q (rev u @ b) t"
proof (induction "length s" arbitrary: b s rule: less_induct)
  case less
  show ?case
  proof (cases "match_at r (b, s)")
    case None
    show ?thesis
    proof (cases s)
      case Nil
      with None less.prems show ?thesis by (simp add: pieces_None_Nil)
    next
      case (Cons x xs)
      with None less.prems have "(True, t) \<in> set (pieces r (x # b, xs))"
        by (simp add: pieces_None_Cons)
      with less.hyps [of xs "x # b"] Cons
      obtain u v where "xs = u @ t @ v" "Q (rev u @ x # b) t" by auto
      with Cons have "s = (x # u) @ t @ v \<and> Q (rev (x # u) @ b) t" by simp
      then show ?thesis by blast
    qed
  next
    case (Some z')
    obtain b' s' where z': "z' = (b', s')" by (cases z')
    from match_at_Some [OF Some] have mem: "z' \<in> set (reach r (b, s))" .
    from sh [OF mem] z' obtain m where m: "s = m @ s'" "m \<noteq> []" "Q b m" by auto
    from reach_cursor [OF mem] z' m have b': "b' = rev m @ b" by auto
    from m have lt: "length s' < length s" by simp
    from m have tk: "take (length s - length s') s = m" by simp
    from Some z' have "match_at r (b, s) = Some (b', s')" by simp
    from pieces_Some_step [OF this lt] tk less.prems
    have "t = m \<or> (True, t) \<in> set (pieces r (b', s'))" by auto
    then show ?thesis
    proof
      assume "t = m"
      with m have "s = [] @ t @ s' \<and> Q (rev [] @ b) t" by simp
      then show ?thesis by blast
    next
      assume "(True, t) \<in> set (pieces r (b', s'))"
      from less.hyps [OF lt this] obtain u v where uv: "s' = u @ t @ v" "Q (rev u @ b') t"
        by blast
      with m b' have "s = (m @ u) @ t @ v \<and> Q (rev (m @ u) @ b) t" by simp
      then show ?thesis by blast
    qed
  qed
qed

lemma no_result_without:
  assumes nl: "c \<notin> set f"
    and sh: "\<And>b s z'. z' \<in> set (reach r (b, s)) \<Longrightarrow> \<exists>m. s = m @ c # snd z'"
  shows "reach r (b, f) = []"
proof (cases "reach r (b, f)")
  case Nil
  then show ?thesis .
next
  case (Cons z' zs)
  then have "z' \<in> set (reach r (b, f))" by simp
  from sh [OF this] obtain m where "f = m @ c # snd z'" by blast
  then have "c \<in> set f" by simp
  with nl show ?thesis by simp
qed

lemma pieces_unmatched_tail:
  assumes nl: "c \<notin> set f"
    and sh: "\<And>b s z'. z' \<in> set (reach r (b, s)) \<Longrightarrow> \<exists>m. s = m @ c # snd z'"
  shows "pieces r (b, f) = unmatched f"
  using nl
proof (induction f arbitrary: b)
  case Nil
  from no_result_without [OF Nil sh] have "match_at r (b, []) = None"
    by (simp add: match_at_None)
  then show ?case by (simp add: pieces_None_Nil unmatched_def)
next
  case (Cons y ys)
  from no_result_without [OF Cons.prems sh] have "match_at r (b, y # ys) = None"
    by (simp add: match_at_None)
  moreover from Cons have "pieces r (y # b, ys) = unmatched ys" by simp
  ultimately show ?case by (simp add: pieces_None_Cons unmatched_def)
qed

lemma suffix_keeps:
  assumes nl: "c \<notin> set f" and eq: "s @ f = m @ c # t"
  shows "length f \<le> length t"
proof (rule ccontr)
  assume "\<not> length f \<le> length t"
  then have len: "length t < length f" by simp
  from eq obtain us where "(s = m @ us \<and> us @ f = c # t) \<or> (s @ us = m \<and> f = us @ c # t)"
    unfolding append_eq_append_conv2 by blast
  then show False
  proof
    assume a: "s = m @ us \<and> us @ f = c # t"
    then have "length us + length f = Suc (length t)" by (metis length_append length_Cons)
    with len have "length us = 0" by arith
    then have "us = []" by simp
    with a have "f = c # t" by simp
    with nl show False by simp
  next
    assume "s @ us = m \<and> f = us @ c # t"
    with nl show False by simp
  qed
qed

lemma pieces_append_tail:
  assumes nl: "c \<notin> set f"
    and sh: "\<And>b s z'. z' \<in> set (reach r (b, s)) \<Longrightarrow> \<exists>m. s = m @ c # snd z'"
  shows "pieces r (b, s @ f) = pieces r (b, s) @ unmatched f"
proof (induction "length s" arbitrary: b s rule: less_induct)
  case less
  have "keeps f z'" if "z' \<in> set (reach r (b, s @ f))" for z'
  proof -
    from sh [OF that] obtain m where "s @ f = m @ c # snd z'" by blast
    from suffix_keeps [OF nl this] show ?thesis by (simp add: keeps_def)
  qed
  then have "filter (keeps f) (reach r (b, s @ f)) = reach r (b, s @ f)" by simp
  with reach_append [of f r b s] have reach_eq: "reach r (b, s @ f) = map (behind f) (reach r (b, s))"
    by simp
  show ?case
  proof (cases "match_at r (b, s)")
    case None
    then have n: "reach r (b, s) = []" by (simp add: match_at_None)
    with reach_eq have n': "match_at r (b, s @ f) = None" by (simp add: match_at_None)
    show ?thesis
    proof (cases s)
      case Nil
      with None pieces_unmatched_tail [OF nl sh, where b = b] show ?thesis
        by (simp add: pieces_None_Nil)
    next
      case (Cons x xs)
      from None Cons have "pieces r (b, x # xs) = (False, [x]) # pieces r (x # b, xs)"
        by (simp add: pieces_None_Cons)
      moreover from n' Cons
      have "pieces r (b, x # xs @ f) = (False, [x]) # pieces r (x # b, xs @ f)"
        by (simp add: pieces_None_Cons)
      moreover from Cons have "pieces r (x # b, xs @ f) = pieces r (x # b, xs) @ unmatched f"
        by (simp add: less.hyps)
      ultimately show ?thesis using Cons by simp
    qed
  next
    case (Some z')
    obtain b' s' where z': "z' = (b', s')" by (cases z')
    from match_at_Some [OF Some] have mem: "z' \<in> set (reach r (b, s))" .
    from sh [OF mem] z' obtain m where m: "s = m @ c # s'" by auto
    then have lt: "length s' < length s" by simp
    from Some z' have s1: "match_at r (b, s) = Some (b', s')" by simp
    with reach_eq have s2: "match_at r (b, s @ f) = Some (b', s' @ f)"
      by (auto simp: match_at_def split: list.splits)
    from lt have lt2: "length (s' @ f) < length (s @ f)" by simp
    from m have tk: "take (length (s @ f) - length (s' @ f)) (s @ f) = take (length s - length s') s"
      by simp
    from pieces_Some_step [OF s1 lt] pieces_Some_step [OF s2 lt2] tk less.hyps [OF lt, of b']
    show ?thesis by simp
  qed
qed

lemma sub_unmatched:
  "concat (map (\<lambda>(m, t). if m then repl t else t) (unmatched f)) = f"
  by (induction f) (simp_all add: unmatched_def)




lemma pieces_matched_at:
  assumes sh: "\<And>b s z'. z' \<in> set (reach r (b, s)) \<Longrightarrow> \<exists>m. s = m @ snd z' \<and> m \<noteq> [] \<and> Q b m"
  shows "pieces r (b, s) = ps1 @ (True, t) # ps2 \<Longrightarrow> Q (rev (concat (map snd ps1)) @ b) t"
proof (induction "length s" arbitrary: b s ps1 rule: less_induct)
  case less
  show ?case
  proof (cases "match_at r (b, s)")
    case None
    show ?thesis
    proof (cases s)
      case Nil
      with None less.prems show ?thesis by (simp add: pieces_None_Nil)
    next
      case (Cons x xs)
      with None less.prems
      have eq: "(False, [x]) # pieces r (x # b, xs) = ps1 @ (True, t) # ps2"
        by (simp add: pieces_None_Cons)
      then obtain ps1' where p: "ps1 = (False, [x]) # ps1'"
        by (cases ps1) auto
      with eq have "pieces r (x # b, xs) = ps1' @ (True, t) # ps2" by simp
      from less.hyps [OF _ this] Cons have "Q (rev (concat (map snd ps1')) @ x # b) t" by simp
      with p show ?thesis by simp
    qed
  next
    case (Some z')
    obtain b' s' where z': "z' = (b', s')" by (cases z')
    from match_at_Some [OF Some] have mem: "z' \<in> set (reach r (b, s))" .
    from sh [OF mem] z' obtain m where m: "s = m @ s'" "m \<noteq> []" "Q b m" by auto
    from reach_cursor [OF mem] z' m have b': "b' = rev m @ b" by auto
    from m have lt: "length s' < length s" by simp
    from m have tk: "take (length s - length s') s = m" by simp
    from Some z' have "match_at r (b, s) = Some (b', s')" by simp
    from pieces_Some_step [OF this lt] tk less.prems
    have eq: "(True, m) # pieces r (b', s') = ps1 @ (True, t) # ps2" by simp
    show ?thesis
    proof (cases ps1)
      case Nil
      with eq m show ?thesis by simp
    next
      case (Cons p ps1')
      with eq have p: "p = (True, m)" and "pieces r (b', s') = ps1' @ (True, t) # ps2" by simp_all
      from less.hyps [OF lt this(2)] have "Q (rev (concat (map snd ps1')) @ b') t" .
      with Cons p b' show ?thesis by simp
    qed
  qed
qed

section \<open>Control lines need their newline\<close>

lemma reach_then_Lit:
  assumes "z' \<in> set (reach (Seq r (Atom (Lit c))) (b, s))"
  shows "\<exists>m. s = m @ c # snd z'"
proof -
  from assms obtain z1 where z1: "z1 \<in> set (reach r (b, s))" and z': "z' \<in> set (reach (Atom (Lit c)) z1)"
    unfolding reach_Seq_iff by blast
  from reach_cursor [OF z1] obtain m where m: "s = m @ snd z1" by blast
  from z' have "z' \<in> set (reach (Atom (Lit c)) (fst z1, snd z1))" by simp
  then have "snd z1 = c # snd z'" unfolding reach_Atom_iff by auto
  with m show ?thesis by auto
qed

lemma control_line_ends:
  assumes r: "r \<in> set control_line_patterns" and z: "z' \<in> set (reach r (b, s))"
  shows "\<exists>m. s = m @ CHR 0x0A # snd z'"
proof -
  from r have "r = JINJA_LINE \<or> r = JINJA_SET_LINE" by (simp add: control_line_patterns_def)
  then show ?thesis
  proof
    assume "r = JINJA_LINE"
    with z show ?thesis unfolding JINJA_LINE_def by (simp only: reach_then_Lit)
  next
    assume "r = JINJA_SET_LINE"
    with z show ?thesis unfolding JINJA_SET_LINE_def by (simp only: reach_then_Lit)
  qed
qed

lemma findall_shape:
  assumes sh: "\<And>b s z'. z' \<in> set (reach r (b, s)) \<Longrightarrow> \<exists>m. s = m @ snd z' \<and> m \<noteq> [] \<and> P m"
    and t: "t \<in> set (findall r text)"
  shows "P t"
proof -
  from t have "(True, t) \<in> set (pieces r ([], text))" by (auto simp: findall_def)
  from pieces_matched [of r "\<lambda>b. P", OF sh this] show ?thesis by simp
qed

text \<open>
  Claim C10. The templating control-line patterns \<^verbatim>\<open>JINJA_LINE\<close> and \<^verbatim>\<open>JINJA_SET_LINE\<close>
  match only text that ends with a newline character. A last line of the input that has
  no trailing newline is therefore in no match: the matches of \<open>body @ final\<close> are those
  of \<open>body\<close>, and a rewriting of the matches, whatever it puts in their place, returns
  \<open>final\<close> as it is.
\<close>

theorem control_line_needs_newline:
  assumes "r \<in> set control_line_patterns"
  shows "(\<forall>t \<in> set (findall r text). t \<noteq> [] \<and> last t = CHR 0x0A)
    \<and> (CHR 0x0A \<notin> set final \<longrightarrow>
          findall r (body @ final) = findall r body
          \<and> sub r repl (body @ final) = sub r repl body @ final)"
proof -
  have sh: "\<exists>m. s = m @ CHR 0x0A # snd z'" if "z' \<in> set (reach r (b, s))" for b s z'
    using control_line_ends [OF assms that] .
  have sh': "\<exists>m. s = m @ snd z' \<and> m \<noteq> [] \<and> last m = CHR 0x0A"
    if "z' \<in> set (reach r (b, s))" for b s z'
  proof -
    from sh [OF that] obtain m where "s = m @ CHR 0x0A # snd z'" by blast
    then have "s = (m @ [CHR 0x0A]) @ snd z' \<and> m @ [CHR 0x0A] \<noteq> [] \<and> last (m @ [CHR 0x0A]) = CHR 0x0A"
      by simp
    then show ?thesis by blast
  qed
  have ends: "t \<noteq> [] \<and> last t = CHR 0x0A" if "t \<in> set (findall r text)" for t
  proof -
    show ?thesis
    proof (rule findall_shape [where r = r and P = "\<lambda>m. m \<noteq> [] \<and> last m = CHR 0x0A"])
      fix b s z'
      assume "z' \<in> set (reach r (b, s))"
      from sh' [OF this]
      show "\<exists>m. s = m @ snd z' \<and> m \<noteq> [] \<and> m \<noteq> [] \<and> last m = CHR 0x0A"
        by blast
    next
      show "t \<in> set (findall r text)" by (rule that)
    qed
  qed
  have tail: "findall r (body @ final) = findall r body
      \<and> sub r repl (body @ final) = sub r repl body @ final"
    if nl: "CHR 0x0A \<notin> set final"
  proof -
    have p: "pieces r ([], body @ final) = pieces r ([], body) @ unmatched final"
      by (rule pieces_append_tail [OF nl]) (rule sh)
    have "filter fst (unmatched final) = []" by (simp add: unmatched_def filter_empty_conv)
    with p have "findall r (body @ final) = findall r body" by (simp add: findall_def)
    moreover from p have "sub r repl (body @ final) = sub r repl body @ final"
      by (simp add: sub_def sub_unmatched)
    ultimately show ?thesis by simp
  qed
  from ends tail show ?thesis by blast
qed

theorem control_line_needs_newline_witness:
  "JINJA_LINE \<in> set control_line_patterns
   \<and> CHR 0x0A \<notin> set ''{% endif %}''
   \<and> sub JINJA_LINE (\<lambda>_. []) (''{% if x %}\<newline>a: 1\<newline>'' @ ''{% endif %}'') = ''a: 1\<newline>{% endif %}''
   \<and> findall JINJA_LINE (''{% if x %}\<newline>a: 1\<newline>'' @ ''{% endif %}'') = [''{% if x %}\<newline>'']
   \<and> JINJA_SET_LINE \<in> set control_line_patterns
   \<and> CHR 0x0A \<notin> set ''{% set name = 1 %}''
   \<and> sub JINJA_SET_LINE (\<lambda>_. []) (''{% set v = 1 %}\<newline>'' @ ''{% set name = 1 %}'') = ''{% set name = 1 %}''"
proof -
  have m1: "JINJA_LINE \<in> set control_line_patterns"
    and m2: "JINJA_SET_LINE \<in> set control_line_patterns"
    by (simp_all add: control_line_patterns_def)
  have n1: "CHR 0x0A \<notin> set ''{% endif %}''" by simp
  have n2: "CHR 0x0A \<notin> set ''{% set name = 1 %}''" by simp
  have b1: "sub JINJA_LINE (\<lambda>_. []) ''{% if x %}\<newline>a: 1\<newline>'' = ''a: 1\<newline>''" by code_simp
  have f1: "findall JINJA_LINE ''{% if x %}\<newline>a: 1\<newline>'' = [''{% if x %}\<newline>'']" by code_simp
  have b2: "sub JINJA_SET_LINE (\<lambda>_. []) ''{% set v = 1 %}\<newline>'' = []" by code_simp
  from control_line_needs_newline [OF m1, of _ "''{% endif %}''" "''{% if x %}\<newline>a: 1\<newline>''" "\<lambda>_. []"] n1 b1 f1
  have "sub JINJA_LINE (\<lambda>_. []) (''{% if x %}\<newline>a: 1\<newline>'' @ ''{% endif %}'') = ''a: 1\<newline>{% endif %}''
    \<and> findall JINJA_LINE (''{% if x %}\<newline>a: 1\<newline>'' @ ''{% endif %}'') = [''{% if x %}\<newline>'']"
    by simp
  moreover
  from control_line_needs_newline [OF m2, of _ "''{% set name = 1 %}''" "''{% set v = 1 %}\<newline>''" "\<lambda>_. []"] n2 b2
  have "sub JINJA_SET_LINE (\<lambda>_. []) (''{% set v = 1 %}\<newline>'' @ ''{% set name = 1 %}'') = ''{% set name = 1 %}''"
    by simp
  ultimately show ?thesis using m1 m2 n1 n2 by blast
qed

section \<open>The environment-variable lookup is rewritten only when free-standing\<close>













section \<open>Upgrading the marker twice\<close>

lemma reach_marker:
  "reach JINJA_REPLACE_V0_STARTING_MARKER (b, s) =
     (case s of
        x # y # rest \<Rightarrow>
          if x = CHR ''{'' \<and> y = CHR ''{'' \<and> \<not> after_dollar b then [(y # x # b, rest)] else []
      | _ \<Rightarrow> [])"
  by (simp add: JINJA_REPLACE_V0_STARTING_MARKER_def after_dollar_def split: list.splits)

lemma marker_reach:
  assumes "z' \<in> set (reach JINJA_REPLACE_V0_STARTING_MARKER (b, s))"
  shows "\<exists>m. s = m @ snd z' \<and> m \<noteq> [] \<and> (m = ''{{'' \<and> \<not> after_dollar b)"
  using assms unfolding reach_marker by (auto split: list.splits if_splits)

lemma pieces_marker_scan:
  "concat (map (\<lambda>(m, t). if m then ''${{'' else t) (pieces JINJA_REPLACE_V0_STARTING_MARKER (b, s)))
     = marker_scan (after_dollar b) s"
proof (induction "after_dollar b" s arbitrary: b rule: marker_scan.induct)
  case (1 x y rest)
  show ?case
  proof (cases "x = CHR ''{'' \<and> y = CHR ''{'' \<and> \<not> after_dollar b")
    case True
    then have m: "match_at JINJA_REPLACE_V0_STARTING_MARKER (b, x # y # rest) = Some (y # x # b, rest)"
      by (simp add: match_at_def reach_marker)
    have a: "after_dollar (y # x # b) = False" using True by (simp add: after_dollar_def)
    from pieces_Some_step [OF m] True "1.hyps"(1) [of "y # x # b"] a
    show ?thesis by simp
  next
    case False
    then have m: "match_at JINJA_REPLACE_V0_STARTING_MARKER (b, x # y # rest) = None"
      by (auto simp: match_at_def reach_marker)
    have a: "after_dollar (x # b) = (x = CHR ''$'')" by (simp add: after_dollar_def)
    from pieces_None_Cons [OF m] False "1.hyps"(2) [of "x # b"] a
    show ?thesis by auto
  qed
next
  case (2 x)
  have m: "match_at JINJA_REPLACE_V0_STARTING_MARKER (b, [x]) = None"
    by (simp add: match_at_def reach_marker)
  have n: "match_at JINJA_REPLACE_V0_STARTING_MARKER (x # b, []) = None"
    by (simp add: match_at_def reach_marker)
  from pieces_None_Cons [OF m] pieces_None_Nil [OF n] show ?case by simp
next
  case 3
  have n: "match_at JINJA_REPLACE_V0_STARTING_MARKER (b, []) = None"
    by (simp add: match_at_def reach_marker)
  from pieces_None_Nil [OF n] show ?case by simp
qed

lemma upgrade_marker_scan: "upgrade_jinja_marker text = marker_scan False text"
  using pieces_marker_scan [of "[]" "text"]
  by (simp add: upgrade_jinja_marker_def sub_def after_dollar_def)

lemma marker_scan_other:
  "x \<noteq> CHR ''{'' \<Longrightarrow> marker_scan d (x # xs) = x # marker_scan (x = CHR ''$'') xs"
  by (cases xs) simp_all

lemma marker_scan_nonempty: "marker_scan d (y # rest) \<noteq> []"
  by (cases rest) simp_all

lemma triple_brace_tl: "\<not> triple_brace (x # xs) \<Longrightarrow> \<not> triple_brace xs"
  by (cases xs rule: triple_brace.cases) auto

lemma marker_scan_idem:
  "\<not> triple_brace s \<Longrightarrow> marker_scan d (marker_scan d s) = marker_scan d s"
proof (induction d s rule: marker_scan.induct)
  case (1 d x y rest)
  show ?case
  proof (cases "x = CHR ''{'' \<and> y = CHR ''{'' \<and> \<not> d")
    case True
    from "1.prems" have nt: "\<not> triple_brace rest"
      by (blast dest: triple_brace_tl)
    with "1.IH"(1) True have ih: "marker_scan False (marker_scan False rest) = marker_scan False rest"
      by simp
    have "marker_scan False (CHR ''{'' # marker_scan False rest) = CHR ''{'' # marker_scan False rest"
    proof (cases rest)
      case Nil
      then show ?thesis by simp
    next
      case (Cons c rest')
      with "1.prems" True have c: "c \<noteq> CHR ''{''" by auto
      then have "marker_scan False rest = c # marker_scan (c = CHR ''$'') rest'"
        using Cons by (simp add: marker_scan_other)
      with c ih show ?thesis by simp
    qed
    with True show ?thesis by simp
  next
    case False
    from "1.prems" have nt: "\<not> triple_brace (y # rest)" by (rule triple_brace_tl)
    let ?d = "x = CHR ''$''"
    from "1.IH"(2) False nt
    have ih: "marker_scan ?d (marker_scan ?d (y # rest)) = marker_scan ?d (y # rest)" by simp
    obtain h tl where r: "marker_scan ?d (y # rest) = h # tl"
      using marker_scan_nonempty [of ?d y rest] by (cases "marker_scan ?d (y # rest)") auto
    have nomatch: "\<not> (x = CHR ''{'' \<and> h = CHR ''{'' \<and> \<not> d)"
    proof
      assume a: "x = CHR ''{'' \<and> h = CHR ''{'' \<and> \<not> d"
      with False have "y \<noteq> CHR ''{''" by simp
      then have "marker_scan ?d (y # rest) = y # marker_scan (y = CHR ''$'') rest"
        by (rule marker_scan_other)
      with r a \<open>y \<noteq> CHR ''{''\<close> show False by simp
    qed
    from False have "marker_scan d (x # y # rest) = x # marker_scan ?d (y # rest)" by simp
    moreover from nomatch r have "marker_scan d (x # h # tl) = x # marker_scan ?d (h # tl)"
      by simp
    ultimately show ?thesis using r ih by simp
  qed
next
  case (2 d x)
  show ?case by simp
next
  case (3 d)
  show ?case by simp
qed


text \<open>
  Claim C5 (amended). On a text with no three opening braces in a row, the rewrite of
  \<^verbatim>\<open>{{\<close> to \<^verbatim>\<open>${{\<close> is idempotent: applied twice it gives what it gives applied once.
  On every text, each occurrence the rewrite replaces is \<^verbatim>\<open>{{\<close> and the character
  before it is not \<^verbatim>\<open>$\<close>: an occurrence already preceded by \<^verbatim>\<open>$\<close> is never given a
  second one.
\<close>

theorem jinja_marker_upgrade:
  "(\<not> triple_brace text \<longrightarrow>
      upgrade_jinja_marker (upgrade_jinja_marker text) = upgrade_jinja_marker text)
   \<and> (\<forall>ps1 t ps2. pieces JINJA_REPLACE_V0_STARTING_MARKER ([], text) = ps1 @ (True, t) # ps2 \<longrightarrow>
         t = ''{{'' \<and> \<not> after_dollar (rev (concat (map snd ps1))))"
proof -
  have idem: "upgrade_jinja_marker (upgrade_jinja_marker text) = upgrade_jinja_marker text"
    if "\<not> triple_brace text"
    using marker_scan_idem [OF that, of False] by (simp add: upgrade_marker_scan)
  have guard: "t = ''{{'' \<and> \<not> after_dollar (rev (concat (map snd ps1)))"
    if p: "pieces JINJA_REPLACE_V0_STARTING_MARKER ([], text) = ps1 @ (True, t) # ps2"
    for ps1 t ps2
  proof -
    have "t = ''{{'' \<and> \<not> after_dollar (rev (concat (map snd ps1)) @ [])"
      by (rule pieces_matched_at [where Q = "\<lambda>b m. m = ''{{'' \<and> \<not> after_dollar b", OF _ p])
        (rule marker_reach)
    then show ?thesis by simp
  qed
  from idem guard show ?thesis by blast
qed

theorem jinja_marker_upgrade_witness:
  "\<not> triple_brace ''{{ name }}-{{ version }}''
   \<and> upgrade_jinja_marker ''{{ name }}-{{ version }}'' = ''${{ name }}-${{ version }}''
   \<and> upgrade_jinja_marker (upgrade_jinja_marker ''{{ name }}-{{ version }}'')
       = ''${{ name }}-${{ version }}''
   \<and> pieces JINJA_REPLACE_V0_STARTING_MARKER ([], ''a{{b'')
       = [(False, ''a'')] @ (True, ''{{'') # [(False, ''b'')]
   \<and> \<not> after_dollar (rev (concat (map snd [(False, ''a'')])))
   \<and> upgrade_jinja_marker ''${{ name }}'' = ''${{ name }}''"
proof -
  have n: "\<not> triple_brace ''{{ name }}-{{ version }}''" by simp
  have u: "upgrade_jinja_marker ''{{ name }}-{{ version }}'' = ''${{ name }}-${{ version }}''"
    by code_simp
  have p: "pieces JINJA_REPLACE_V0_STARTING_MARKER ([], ''a{{b'')
       = [(False, ''a'')] @ (True, ''{{'') # [(False, ''b'')]"
    by code_simp
  have k: "upgrade_jinja_marker ''${{ name }}'' = ''${{ name }}''" by code_simp
  from jinja_marker_upgrade [of "''{{ name }}-{{ version }}''"] n u
  have "upgrade_jinja_marker (upgrade_jinja_marker ''{{ name }}-{{ version }}'')
       = ''${{ name }}-${{ version }}''"
    by simp
  moreover from jinja_marker_upgrade [of "''a{{b''"] p
  have "\<not> after_dollar (rev (concat (map snd [(False, ''a'')])))" by blast
  ultimately show ?thesis using n u p k by blast
qed

text \<open>
  Claim C5 as stated fails: after \<^verbatim>\<open>{{{\<close> the first pass leaves \<^verbatim>\<open>${{{\<close>, whose last two
  braces are preceded by a brace, not by a dollar sign, and the second pass rewrites them.
\<close>

theorem jinja_marker_upgrade_not_idempotent:
  "upgrade_jinja_marker ''{{{ x }}}'' = ''${{{ x }}}''
   \<and> upgrade_jinja_marker (upgrade_jinja_marker ''{{{ x }}}'') = ''${${{ x }}}''
   \<and> upgrade_jinja_marker (upgrade_jinja_marker ''{{{ x }}}'') \<noteq> upgrade_jinja_marker ''{{{ x }}}''"
proof -
  have 1: "upgrade_jinja_marker ''{{{ x }}}'' = ''${{{ x }}}''" by code_simp
  have 2: "upgrade_jinja_marker (upgrade_jinja_marker ''{{{ x }}}'') = ''${${{ x }}}''"
    by code_simp
  from 1 2 show ?thesis by simp
qed


section \<open>The license normalizer is a lookup\<close>

lemma spdx_keys_distinct: "distinct (map fst SPDX_COMMON_MISSPELLINGS_TBL)"
  by (simp add: SPDX_COMMON_MISSPELLINGS_TBL_def)

text \<open>
  Claim C6. The license normalizer returns the canonical identifier the table maps \<open>s\<close>
  to when \<open>s\<close> is exactly a key of the table (no key occurs twice), and \<open>s\<close> itself
  otherwise; \<^verbatim>\<open>BSD 3-CLAUSE\<close> becomes \<^verbatim>\<open>BSD-3-Clause\<close> and \<^verbatim>\<open>MIT\<close> stays \<^verbatim>\<open>MIT\<close>.
\<close>

theorem normalize_license_lookup:
  "(\<forall>c. (s, c) \<in> set SPDX_COMMON_MISSPELLINGS_TBL \<longrightarrow> normalize_license s = c)
   \<and> (s \<notin> fst ` set SPDX_COMMON_MISSPELLINGS_TBL \<longrightarrow> normalize_license s = s)
   \<and> normalize_license ''BSD 3-CLAUSE'' = ''BSD-3-Clause''
   \<and> normalize_license ''MIT'' = ''MIT''"
proof -
  have hit: "normalize_license s = c" if "(s, c) \<in> set SPDX_COMMON_MISSPELLINGS_TBL" for c
  proof -
    from spdx_keys_distinct that have "map_of SPDX_COMMON_MISSPELLINGS_TBL s = Some c"
      by (rule map_of_is_SomeI)
    then show ?thesis by (simp add: normalize_license_def)
  qed
  have miss: "normalize_license s = s" if "s \<notin> fst ` set SPDX_COMMON_MISSPELLINGS_TBL"
  proof -
    from that have "map_of SPDX_COMMON_MISSPELLINGS_TBL s = None"
      by (simp add: map_of_eq_None_iff)
    then show ?thesis by (simp add: normalize_license_def)
  qed
  have bsd: "normalize_license ''BSD 3-CLAUSE'' = ''BSD-3-Clause''"
    by (simp add: normalize_license_def SPDX_COMMON_MISSPELLINGS_TBL_def)
  have mit: "normalize_license ''MIT'' = ''MIT''"
    by (simp add: normalize_license_def SPDX_COMMON_MISSPELLINGS_TBL_def)
  from hit miss bsd mit show ?thesis by blast
qed

theorem normalize_license_lookup_witness:
  "(''GPL-3'', ''GPL-3.0'') \<in> set SPDX_COMMON_MISSPELLINGS_TBL
   \<and> normalize_license ''GPL-3'' = ''GPL-3.0''
   \<and> ''bsd 3-clause'' \<notin> fst ` set SPDX_COMMON_MISSPELLINGS_TBL
   \<and> normalize_license ''bsd 3-clause'' = ''bsd 3-clause''"
proof -
  have m: "(''GPL-3'', ''GPL-3.0'') \<in> set SPDX_COMMON_MISSPELLINGS_TBL"
    by (simp add: SPDX_COMMON_MISSPELLINGS_TBL_def)
  have n: "''bsd 3-clause'' \<notin> fst ` set SPDX_COMMON_MISSPELLINGS_TBL"
    by (simp add: SPDX_COMMON_MISSPELLINGS_TBL_def)
  from normalize_license_lookup [of "''GPL-3''"] m
  have "normalize_license ''GPL-3'' = ''GPL-3.0''" by blast
  moreover from normalize_license_lookup [of "''bsd 3-clause''"] n
  have "normalize_license ''bsd 3-clause'' = ''bsd 3-clause''" by blast
  ultimately show ?thesis using m n by blast
qed

section \<open>Re-ordering a mapping is a stable sort by rank\<close>

lemma sort_key_same:
  "\<forall>x \<in> set xs. f x = c \<Longrightarrow> sort_key f xs = xs"
proof (induction xs)
  case Nil
  show ?case by simp
next
  case (Cons x xs)
  then have "sort_key f xs = xs" by simp
  with Cons.prems show ?case by (cases xs) simp_all
qed

lemma sorted_split:
  assumes "sorted (map f ys)" and "\<And>x y. P x \<Longrightarrow> \<not> P y \<Longrightarrow> f x < f y"
  shows "ys = filter P ys @ filter (\<lambda>y. \<not> P y) ys"
  using assms(1)
proof (induction ys)
  case Nil
  show ?case by simp
next
  case (Cons y ys)
  from Cons.prems have s: "sorted (map f ys)" and le: "\<forall>z \<in> set ys. f y \<le> f z" by auto
  from Cons.IH [OF s] have ih: "ys = filter P ys @ filter (\<lambda>y. \<not> P y) ys" .
  show ?case
  proof (cases "P y")
    case True
    with ih show ?thesis by simp
  next
    case False
    have "\<not> P z" if "z \<in> set ys" for z
    proof
      assume "P z"
      from assms(2) [OF this False] le that show False by auto
    qed
    then have "filter P ys = []" by (simp add: filter_empty_conv)
    with False ih show ?thesis by simp
  qed
qed


lemma rank_key_ranked: "ranked tbl e \<Longrightarrow> rank_key tbl (fst e) = (False, rank_of tbl e)"
  by (auto simp: ranked_def rank_key_def rank_of_def)

lemma rank_key_unranked: "\<not> ranked tbl e \<Longrightarrow> rank_key tbl (fst e) = (True, 0)"
  by (auto simp: ranked_def rank_key_def)

lemma rank_key_less:
  "ranked tbl x \<Longrightarrow> \<not> ranked tbl y \<Longrightarrow> rank_key tbl (fst x) < rank_key tbl (fst y)"
  by (simp add: rank_key_ranked rank_key_unranked)

lemma reorder_sorted: "sorted (map (\<lambda>e. rank_key tbl (fst e)) (reorder tbl es))"
  unfolding reorder_def by (rule sorted_sort_key)

lemma reorder_split:
  "reorder tbl es = filter (ranked tbl) (reorder tbl es) @ filter (\<lambda>e. \<not> ranked tbl e) es"
proof -
  let ?f = "\<lambda>e. rank_key tbl (fst e)"
  have "reorder tbl es
      = filter (ranked tbl) (reorder tbl es) @ filter (\<lambda>e. \<not> ranked tbl e) (reorder tbl es)"
    by (rule sorted_split [where f = ?f]) (rule reorder_sorted, rule rank_key_less)
  moreover have "filter (\<lambda>e. \<not> ranked tbl e) (reorder tbl es) = filter (\<lambda>e. \<not> ranked tbl e) es"
  proof -
    have "filter (\<lambda>e. \<not> ranked tbl e) (reorder tbl es)
        = sort_key ?f (filter (\<lambda>e. \<not> ranked tbl e) es)"
      unfolding reorder_def by (rule filter_sort)
    also have "\<dots> = filter (\<lambda>e. \<not> ranked tbl e) es"
      by (rule sort_key_same [where c = "(True, 0)"]) (simp add: rank_key_unranked)
    finally show ?thesis .
  qed
  ultimately show ?thesis by simp
qed

lemma reorder_ranked_sorted:
  "sorted (map (rank_of tbl) (filter (ranked tbl) (reorder tbl es)))"
proof -
  let ?f = "\<lambda>e. rank_key tbl (fst e)"
  let ?rs = "filter (ranked tbl) (reorder tbl es)"
  have "sorted (map ?f ?rs)"
    using reorder_sorted [of tbl es] by (rule sorted_filter)
  moreover have "map ?f ?rs = map (\<lambda>e. (False, rank_of tbl e)) ?rs"
    by (rule map_cong [OF refl]) (simp add: rank_key_ranked)
  ultimately have "sorted (map (\<lambda>e. (False, rank_of tbl e)) ?rs)" by simp
  then show ?thesis by (simp add: sorted_wrt_map)
qed


text \<open>
  Claim C4. A mapping re-ordered under a canonicalization table is its ranked entries
  followed by the unranked entries of the input in their original order; the ranked
  entries are in ascending rank; entries of equal rank keep their relative order; and
  the result has exactly the entries of the input, each key with its own subtree.
\<close>

theorem reorder_canonical:
  "reorder tbl es = filter (ranked tbl) (reorder tbl es) @ filter (\<lambda>e. \<not> ranked tbl e) es
   \<and> sorted (map (rank_of tbl) (filter (ranked tbl) (reorder tbl es)))
   \<and> (\<forall>r. filter (\<lambda>e. map_of tbl (fst e) = Some r) (reorder tbl es)
          = filter (\<lambda>e. map_of tbl (fst e) = Some r) es)
   \<and> mset (reorder tbl es) = mset es"
proof -
  have stable: "filter (\<lambda>e. map_of tbl (fst e) = Some r) (reorder tbl es)
      = filter (\<lambda>e. map_of tbl (fst e) = Some r) es" for r
  proof -
    have eq: "(map_of tbl (fst e) = Some r) = (rank_key tbl (fst e) = (False, r))" for e :: "string \<times> 'a"
      by (auto simp: rank_key_def split: option.splits)
    show ?thesis
      unfolding eq reorder_def by (rule sort_key_stable)
  qed
  have "mset (reorder tbl es) = mset es" by (simp add: reorder_def)
  with reorder_split [of tbl es] reorder_ranked_sorted [of tbl es] stable show ?thesis
    by blast
qed

theorem reorder_canonical_witness:
  "reorder TOP_LEVEL_KEY_SORT_ORDER
      [(''zeta'', 1::nat), (''about'', 2), (''build'', 3), (''alpha'', 4), (''package'', 5)]
    = [(''package'', 5), (''build'', 3), (''about'', 2), (''zeta'', 1), (''alpha'', 4)]
   \<and> filter (\<lambda>e. \<not> ranked TOP_LEVEL_KEY_SORT_ORDER e)
        [(''zeta'', 1::nat), (''about'', 2), (''build'', 3), (''alpha'', 4), (''package'', 5)]
      = [(''zeta'', 1), (''alpha'', 4)]
   \<and> map (rank_of TOP_LEVEL_KEY_SORT_ORDER) [(''package'', 5::nat), (''build'', 3), (''about'', 2)]
      = [20, 60, 110]"
proof -
  let ?es = "[(''zeta'', 1::nat), (''about'', 2), (''build'', 3), (''alpha'', 4), (''package'', 5)]"
  have u: "filter (\<lambda>e. \<not> ranked TOP_LEVEL_KEY_SORT_ORDER e) ?es = [(''zeta'', 1), (''alpha'', 4)]"
    by (simp add: ranked_def TOP_LEVEL_KEY_SORT_ORDER_def)
  have k: "map (rank_of TOP_LEVEL_KEY_SORT_ORDER) [(''package'', 5::nat), (''build'', 3), (''about'', 2)]
      = [20, 60, 110]"
    by (simp add: rank_of_def TOP_LEVEL_KEY_SORT_ORDER_def)
  have r: "reorder TOP_LEVEL_KEY_SORT_ORDER ?es
      = [(''package'', 5), (''build'', 3), (''about'', 2), (''zeta'', 1), (''alpha'', 4)]"
    by (simp add: reorder_def rank_key_def TOP_LEVEL_KEY_SORT_ORDER_def)
  from reorder_canonical [of TOP_LEVEL_KEY_SORT_ORDER ?es]
  have "mset (reorder TOP_LEVEL_KEY_SORT_ORDER ?es) = mset ?es" by blast
  with r u k show ?thesis by simp
qed

section \<open>Selectors on entries of a mapping are reported\<close>












section \<open>What the block-scalar pattern accepts\<close>

text \<open>
  The pattern accepts the six variants, with or without a trailing comment. It has no
  anchor at its end: matched as a prefix it also accepts a line that goes on after the
  indicator, matched against the whole line it does not.
\<close>

lemma multiline_variants:
  "matches_whole MULTILINE ''key: |'' \<and> matches_whole MULTILINE ''  key: >-'' \<and>
   matches_whole MULTILINE ''key: |+  # note'' \<and> matches_prefix MULTILINE ''key: >''"
  by code_simp

lemma multiline_open_end:
  "matches_prefix MULTILINE ''key: |x'' \<and> \<not> matches_whole MULTILINE ''key: |x''"
  by code_simp

end
